theory Spec2Isabelle
  imports Main
begin

unbundle bit_operations_syntax

section \<open>Types and constants (index.tsx, lines 4--36)\<close>

datatype TileType = TERMINAL | STRAIGHT | CORNER | T_JUNCTION | CROSS

record Tile =
  type :: TileType
  rotation :: nat
  connected :: bool
  isServer :: bool

type_synonym Grid = "Tile list list"

text \<open>\<^verbatim>\<open>Coords = { r, c }\<close> is the pair \<open>(r, c)\<close>. Coordinates are integers: the
  code computes \<open>r + dir.r\<close>, which is \<open>-1\<close> one step north of row \<open>0\<close>.\<close>

type_synonym Coords = "int \<times> int"

text \<open>The keys of \<^verbatim>\<open>DIRECTIONS\<close>; \<^verbatim>\<open>for (const key in DIRECTIONS)\<close> visits them in the
  order they are written.\<close>

datatype Dir = N | E | S | W

definition DIRECTIONS :: "Dir list" where
  "DIRECTIONS = [N, E, S, W]"

fun dir_r :: "Dir \<Rightarrow> int" where
  "dir_r N = -1" | "dir_r E = 0" | "dir_r S = 1" | "dir_r W = 0"

fun dir_c :: "Dir \<Rightarrow> int" where
  "dir_c N = 0" | "dir_c E = 1" | "dir_c S = 0" | "dir_c W = -1"

fun dir_from :: "Dir \<Rightarrow> Dir" where
  "dir_from N = S" | "dir_from E = W" | "dir_from S = N" | "dir_from W = E"

fun dir_mask :: "Dir \<Rightarrow> nat" where
  "dir_mask N = 1" | "dir_mask E = 2" | "dir_mask S = 4" | "dir_mask W = 8"

fun TILE_CONNECTIONS :: "TileType \<Rightarrow> nat list" where
  "TILE_CONNECTIONS TERMINAL = [1, 2, 4, 8]"
| "TILE_CONNECTIONS STRAIGHT = [5, 10, 5, 10]"
| "TILE_CONNECTIONS CORNER = [3, 6, 12, 9]"
| "TILE_CONNECTIONS T_JUNCTION = [7, 14, 13, 11]"
| "TILE_CONNECTIONS CROSS = [15, 15, 15, 15]"

text \<open>\<^verbatim>\<open>TILE_CONNECTIONS[tile.type][tile.rotation]\<close>. A rotation outside \<open>0..3\<close> reads
  \<^verbatim>\<open>undefined\<close>; the value is only ever used as \<^verbatim>\<open>connections & mask\<close>, where
  \<^verbatim>\<open>undefined\<close> acts as \<open>0\<close>.\<close>

definition tile_connections :: "Tile \<Rightarrow> nat" where
  "tile_connections t =
     (if rotation t < length (TILE_CONNECTIONS (type t))
      then TILE_CONNECTIONS (type t) ! rotation t else 0)"

section \<open>Arrays of arrays and grid topology\<close>

text \<open>\<^verbatim>\<open>a[r][c]\<close> on an array of arrays. \<open>None\<close> stands for an index outside the
  array: JavaScript then yields \<^verbatim>\<open>undefined\<close> (and a \<^verbatim>\<open>TypeError\<close> as soon as a
  property of it is read).\<close>

definition at2 :: "'a list list \<Rightarrow> Coords \<Rightarrow> 'a option" where
  "at2 a p =
     (if 0 \<le> fst p \<and> fst p < int (length a) \<and>
         0 \<le> snd p \<and> snd p < int (length (a ! nat (fst p)))
      then Some (a ! nat (fst p) ! nat (snd p)) else None)"

text \<open>\<^verbatim>\<open>a[r][c] = v\<close>. The code only writes inside the array; a write outside is
  reported as \<open>None\<close>.\<close>

definition set2 :: "'a list list \<Rightarrow> Coords \<Rightarrow> 'a \<Rightarrow> 'a list list option" where
  "set2 a p v =
     (if 0 \<le> fst p \<and> fst p < int (length a) \<and>
         0 \<le> snd p \<and> snd p < int (length (a ! nat (fst p)))
      then Some (a[nat (fst p) := (a ! nat (fst p))[nat (snd p) := v]]) else None)"

text \<open>JavaScript's \<^verbatim>\<open>%\<close> truncates toward zero (the sign of the dividend). With a zero
  divisor it yields \<^verbatim>\<open>NaN\<close>; every use below has the grid size as divisor, and no
  function reaches such a use on a grid of size \<open>0\<close>.\<close>

definition js_rem :: "int \<Rightarrow> int \<Rightarrow> int" where
  "js_rem a b = sgn a * (\<bar>a\<bar> mod \<bar>b\<bar>)"

text \<open>The neighbour computation that every loop of the engine repeats:
  \<^verbatim>\<open>let nr = r + dir.r; let nc = c + dir.c;
  if (isWrapping) { nr = (nr + size) % size; nc = (nc + size) % size; }\<close>\<close>

definition neighbor :: "int \<Rightarrow> bool \<Rightarrow> Coords \<Rightarrow> Dir \<Rightarrow> Coords" where
  "neighbor sz isWrapping p d =
     (let nr = fst p + dir_r d; nc = snd p + dir_c d
      in if isWrapping then (js_rem (nr + sz) sz, js_rem (nc + sz) sz) else (nr, nc))"

text \<open>\<^verbatim>\<open>nr >= 0 && nr < size && nc >= 0 && nc < size\<close>\<close>

definition in_bounds :: "int \<Rightarrow> Coords \<Rightarrow> bool" where
  "in_bounds sz p = (fst p \<ge> 0 \<and> fst p < sz \<and> snd p \<ge> 0 \<and> snd p < sz)"

section \<open>The Connectivity Evaluator: \<^verbatim>\<open>checkConnectivity\<close> (lines 381--421)\<close>

text \<open>The body of \<^verbatim>\<open>for (const key in DIRECTIONS)\<close> inside the search loop, run
  over the directions still to do. The state is the \<^verbatim>\<open>visited\<close> set and the
  \<^verbatim>\<open>queue\<close>. The set holds the keys \<^verbatim>\<open>`${r},${c}`\<close>, which name integer coordinates
  one to one, so it is kept as a list of coordinates in insertion order.\<close>

fun expand :: "Grid \<Rightarrow> bool \<Rightarrow> Coords \<Rightarrow> nat \<Rightarrow> Dir list \<Rightarrow>
    Coords list \<times> Coords list \<Rightarrow> (Coords list \<times> Coords list) option" where
  "expand grid isWrapping p connections [] (visited, queue) = Some (visited, queue)"
| "expand grid isWrapping p connections (d # ds) (visited, queue) =
     (if connections AND dir_mask d \<noteq> 0 then
        (let n = neighbor (int (length grid)) isWrapping p d in
         if (isWrapping \<or> in_bounds (int (length grid)) n) \<and> n \<notin> set visited then
           (case at2 grid n of
              None \<Rightarrow> None
            | Some nb \<Rightarrow>
                if tile_connections nb AND dir_mask (dir_from d) \<noteq> 0
                then expand grid isWrapping p connections ds (visited @ [n], queue @ [n])
                else expand grid isWrapping p connections ds (visited, queue))
         else expand grid isWrapping p connections ds (visited, queue))
      else expand grid isWrapping p connections ds (visited, queue))"

lemma at2_dom: "dom (at2 a) =
    (\<Union>i\<in>{..<length a}. (\<lambda>j. (int i, int j)) ` {..<length (a ! i)})"
proof (rule set_eqI)
  fix p :: Coords
  obtain r c where p: "p = (r, c)" by (cases p)
  show "p \<in> dom (at2 a) \<longleftrightarrow>
      p \<in> (\<Union>i\<in>{..<length a}. (\<lambda>j. (int i, int j)) ` {..<length (a ! i)})"
  proof
    assume "p \<in> dom (at2 a)"
    then have h: "0 \<le> r" "r < int (length a)" "0 \<le> c" "c < int (length (a ! nat r))"
      by (auto simp: at2_def p dom_def split: if_splits)
    then have "nat r < length a" "nat c < length (a ! nat r)" "p = (int (nat r), int (nat c))"
      by (auto simp: p)
    then show "p \<in> (\<Union>i\<in>{..<length a}. (\<lambda>j. (int i, int j)) ` {..<length (a ! i)})"
      by blast
  next
    assume "p \<in> (\<Union>i\<in>{..<length a}. (\<lambda>j. (int i, int j)) ` {..<length (a ! i)})"
    then show "p \<in> dom (at2 a)"
      by (auto simp: at2_def dom_def)
  qed
qed

lemma finite_at2_dom: "finite (dom (at2 a))"
  unfolding at2_dom by simp

lemma expand_measure:
  "expand grid w p conn ds (vis, q) = Some (vis', q') \<Longrightarrow>
   2 * card (dom (at2 grid) - set vis') + length q' \<le> 2 * card (dom (at2 grid) - set vis) + length q"
proof (induction ds arbitrary: vis q)
  case Nil
  then show ?case by simp
next
  case (Cons d ds)
  let ?n = "neighbor (int (length grid)) w p d"
  show ?case
  proof (cases "conn AND dir_mask d \<noteq> 0 \<and> (w \<or> in_bounds (int (length grid)) ?n) \<and> ?n \<notin> set vis
        \<and> (\<exists>nb. at2 grid ?n = Some nb \<and> tile_connections nb AND dir_mask (dir_from d) \<noteq> 0)")
    case True
    then have step: "expand grid w p conn ds (vis @ [?n], q @ [?n]) = Some (vis', q')"
      using Cons.prems by (auto simp: Let_def)
    have "?n \<in> dom (at2 grid) - set vis" using True by auto
    then have "card (dom (at2 grid) - set (vis @ [?n])) < card (dom (at2 grid) - set vis)"
      by (intro psubset_card_mono) (auto simp: finite_at2_dom)
    with Cons.IH[OF step] show ?thesis by simp
  next
    case False
    then have "expand grid w p conn ds (vis, q) = Some (vis', q')"
      using Cons.prems by (auto simp: Let_def split: if_splits option.splits)
    then show ?thesis by (rule Cons.IH)
  qed
qed

text \<open>The search loop \<^verbatim>\<open>while (queue.length > 0)\<close>: \<^verbatim>\<open>queue.shift()\<close> takes the head,
  \<^verbatim>\<open>connectedSet.add\<close> records it, \<^verbatim>\<open>grid[r][c]\<close> reads the tile (a \<^verbatim>\<open>TypeError\<close>
  where there is none), and the directions are expanded. The result is the final
  \<^verbatim>\<open>connectedSet\<close>.\<close>

function bfs :: "Grid \<Rightarrow> bool \<Rightarrow> Coords list \<Rightarrow> Coords list \<Rightarrow> Coords list \<Rightarrow>
    Coords list option" where
  "bfs grid isWrapping [] visited connectedSet = Some connectedSet"
| "bfs grid isWrapping (p # queue) visited connectedSet =
     (case at2 grid p of
        None \<Rightarrow> None
      | Some tile \<Rightarrow>
          (case expand grid isWrapping p (tile_connections tile) DIRECTIONS (visited, queue) of
             None \<Rightarrow> None
           | Some (visited', queue') \<Rightarrow> bfs grid isWrapping queue' visited' (connectedSet @ [p])))"
  by pat_completeness auto
termination
proof (relation "measure (\<lambda>(grid, w, q, vis, cs). 2 * card (dom (at2 grid) - set vis) + length q)")
  show "wf (measure (\<lambda>(grid, w, q, vis, cs). 2 * card (dom (at2 grid) - set vis) + length q))"
    by simp
next
  fix grid :: Grid and isWrapping p queue visited connectedSet tile x visited' queue'
  assume "expand grid isWrapping p (tile_connections tile) DIRECTIONS (visited, queue) = Some x"
    and "(visited', queue') = x"
  then have "expand grid isWrapping p (tile_connections tile) DIRECTIONS (visited, queue)
      = Some (visited', queue')" by simp
  from expand_measure[OF this]
  show "((grid, isWrapping, queue', visited', connectedSet @ [p]),
         (grid, isWrapping, p # queue, visited, connectedSet))
        \<in> measure (\<lambda>(grid, w, q, vis, cs). 2 * card (dom (at2 grid) - set vis) + length q)"
    by simp
qed

text \<open>The final \<^verbatim>\<open>grid.map((row, r) => row.map((tile, c) => ({ ...tile, connected:
  connectedSet.has(`${r},${c}`) })))\<close>.\<close>

definition mark_connected :: "Grid \<Rightarrow> Coords list \<Rightarrow> Grid" where
  "mark_connected grid connectedSet =
     map (\<lambda>(r, row). map (\<lambda>(c, tile). tile\<lparr>connected := ((int r, int c) \<in> set connectedSet)\<rparr>)
                           (enumerate 0 row))
         (enumerate 0 grid)"

definition checkConnectivity :: "Grid \<Rightarrow> Coords \<Rightarrow> bool \<Rightarrow> Grid option" where
  "checkConnectivity grid serverCoords isWrapping =
     (case bfs grid isWrapping [serverCoords] [serverCoords] [] of
        None \<Rightarrow> None
      | Some connectedSet \<Rightarrow> Some (mark_connected grid connectedSet))"

section \<open>Properties of the Connectivity Evaluator\<close>


declare bfs.simps(2) [simp del]

definition square :: "'a list list \<Rightarrow> bool" where
  "square a = list_all (\<lambda>row. length row = length a) a"

lemma at2_square: "square a \<Longrightarrow> at2 a p \<noteq> None \<longleftrightarrow> in_bounds (int (length a)) p"
  by (auto simp: at2_def in_bounds_def square_def list_all_iff)

lemma js_rem_nonneg: "0 \<le> a \<Longrightarrow> 0 < b \<Longrightarrow> js_rem a b = a mod b"
  by (cases "a = 0") (auto simp: js_rem_def)

lemma neighbor_wrap_in_bounds:
  assumes "in_bounds sz p"
  shows "in_bounds sz (neighbor sz True p d)"
proof -
  obtain r c where p: "p = (r, c)" by (cases p)
  have sz: "0 < sz" "0 \<le> r" "r < sz" "0 \<le> c" "c < sz"
    using assms by (auto simp: in_bounds_def p)
  have "0 \<le> r + dir_r d + sz" "0 \<le> c + dir_c d + sz"
    using sz by (cases d; simp)+
  then show ?thesis
    using sz by (simp add: neighbor_def p Let_def js_rem_nonneg in_bounds_def)
qed

lemma expand_append:
  "expand grid w p conn ds (vis, q) = Some (vis', q') \<Longrightarrow>
   \<exists>new. vis' = vis @ new \<and> q' = q @ new \<and> set new \<subseteq> dom (at2 grid)"
proof (induction ds arbitrary: vis q)
  case Nil
  then show ?case by simp
next
  case (Cons d ds)
  let ?n = "neighbor (int (length grid)) w p d"
  show ?case
  proof (cases "conn AND dir_mask d \<noteq> 0 \<and> (w \<or> in_bounds (int (length grid)) ?n) \<and> ?n \<notin> set vis
        \<and> (\<exists>nb. at2 grid ?n = Some nb \<and> tile_connections nb AND dir_mask (dir_from d) \<noteq> 0)")
    case True
    then have step: "expand grid w p conn ds (vis @ [?n], q @ [?n]) = Some (vis', q')"
      using Cons.prems by (auto simp: Let_def)
    from Cons.IH[OF step] obtain new where
      "vis' = (vis @ [?n]) @ new" "q' = (q @ [?n]) @ new" "set new \<subseteq> dom (at2 grid)" by blast
    moreover have "?n \<in> dom (at2 grid)" using True by auto
    ultimately have "vis' = vis @ (?n # new) \<and> q' = q @ (?n # new) \<and> set (?n # new) \<subseteq> dom (at2 grid)"
      by simp
    then show ?thesis by blast
  next
    case False
    then have "expand grid w p conn ds (vis, q) = Some (vis', q')"
      using Cons.prems by (auto simp: Let_def split: if_splits option.splits)
    then show ?thesis by (rule Cons.IH)
  qed
qed

text \<open>The condition under which the loop body links \<open>p\<close> to its neighbour in direction \<open>d\<close>.\<close>
definition link_dir :: "Grid \<Rightarrow> bool \<Rightarrow> Coords \<Rightarrow> nat \<Rightarrow> Dir \<Rightarrow> bool" where
  "link_dir grid w p conn d =
     (conn AND dir_mask d \<noteq> 0 \<and>
      (w \<or> in_bounds (int (length grid)) (neighbor (int (length grid)) w p d)) \<and>
      (case at2 grid (neighbor (int (length grid)) w p d) of
         None \<Rightarrow> False
       | Some nb \<Rightarrow> tile_connections nb AND dir_mask (dir_from d) \<noteq> 0))"

lemma expand_links:
  "expand grid w p conn ds (vis, q) = Some (vis', q') \<Longrightarrow> d \<in> set ds \<Longrightarrow>
   link_dir grid w p conn d \<Longrightarrow> neighbor (int (length grid)) w p d \<in> set vis'"
proof (induction ds arbitrary: vis q)
  case Nil
  then show ?case by simp
next
  case (Cons e ds)
  let ?n = "neighbor (int (length grid)) w p e"
  obtain vis1 q1 where step: "expand grid w p conn ds (vis1, q1) = Some (vis', q')"
    and sub: "set vis \<subseteq> set vis1" and hit: "link_dir grid w p conn e \<longrightarrow> ?n \<in> set vis1"
  proof (cases "conn AND dir_mask e \<noteq> 0 \<and> (w \<or> in_bounds (int (length grid)) ?n) \<and> ?n \<notin> set vis
        \<and> (\<exists>nb. at2 grid ?n = Some nb \<and> tile_connections nb AND dir_mask (dir_from e) \<noteq> 0)")
    case True
    then have "expand grid w p conn ds (vis @ [?n], q @ [?n]) = Some (vis', q')"
      using Cons.prems(1) by (auto simp: Let_def)
    then show ?thesis using that[of "vis @ [?n]" "q @ [?n]"] by auto
  next
    case False
    then have "expand grid w p conn ds (vis, q) = Some (vis', q')"
      using Cons.prems(1) by (auto simp: Let_def split: if_splits option.splits)
    moreover have "link_dir grid w p conn e \<longrightarrow> ?n \<in> set vis"
      using False by (auto simp: link_dir_def split: option.splits)
    ultimately show ?thesis using that[of vis q] by auto
  qed
  from expand_append[OF step] have mono: "set vis1 \<subseteq> set vis'" by auto
  show ?case
  proof (cases "d = e")
    case True
    then show ?thesis using hit mono Cons.prems(3) by auto
  next
    case False
    then have "d \<in> set ds" using Cons.prems(2) by simp
    from Cons.IH[OF step this Cons.prems(3)] show ?thesis .
  qed
qed

lemma expand_total:
  assumes "\<And>d. w \<or> in_bounds (int (length grid)) (neighbor (int (length grid)) w p d) \<Longrightarrow>
      at2 grid (neighbor (int (length grid)) w p d) \<noteq> None"
  shows "expand grid w p conn ds (vis, q) \<noteq> None"
proof (induction ds arbitrary: vis q)
  case Nil
  then show ?case by simp
next
  case (Cons d ds)
  then show ?case using assms[of d] by (auto simp: Let_def split: option.splits)
qed

lemma expand_total_square:
  assumes "square grid" "in_bounds (int (length grid)) p"
  shows "expand grid w p conn ds (vis, q) \<noteq> None"
proof (rule expand_total)
  fix d
  assume "w \<or> in_bounds (int (length grid)) (neighbor (int (length grid)) w p d)"
  then have "in_bounds (int (length grid)) (neighbor (int (length grid)) w p d)"
    using neighbor_wrap_in_bounds[OF assms(2)] by (cases w) auto
  then show "at2 grid (neighbor (int (length grid)) w p d) \<noteq> None"
    using at2_square[OF assms(1)] by blast
qed

lemma bfs_total:
  "square grid \<Longrightarrow> set q \<subseteq> dom (at2 grid) \<Longrightarrow> bfs grid w q vis cs \<noteq> None"
proof (induction grid w q vis cs rule: bfs.induct)
  case (1 grid w vis cs)
  then show ?case by simp
next
  case (2 grid w p queue vis cs)
  from "2.prems" obtain tile where tile: "at2 grid p = Some tile" by auto
  then have pb: "in_bounds (int (length grid)) p"
    using at2_square[OF "2.prems"(1), of p] by simp
  from expand_total_square[OF "2.prems"(1) pb] obtain vis' q' where
    ex: "expand grid w p (tile_connections tile) DIRECTIONS (vis, queue) = Some (vis', q')"
    by (metis not_None_eq surj_pair)
  from expand_append[OF ex] "2.prems"(2) have "set q' \<subseteq> dom (at2 grid)" by auto
  from "2.IH"[OF tile ex refl "2.prems"(1) this] show ?case
    using tile ex by (simp add: bfs.simps(2))
qed


definition linked :: "Grid \<Rightarrow> bool \<Rightarrow> Coords \<Rightarrow> Coords \<Rightarrow> bool" where
  "linked grid w p n =
     (case at2 grid p of
        None \<Rightarrow> False
      | Some t \<Rightarrow> list_ex (\<lambda>d. n = neighbor (int (length grid)) w p d \<and>
                              link_dir grid w p (tile_connections t) d) DIRECTIONS)"

lemma bfs_closed:
  "bfs grid w q vis cs = Some res \<Longrightarrow> set vis = set q \<union> set cs \<Longrightarrow>
   (\<And>p n. p \<in> set cs \<Longrightarrow> linked grid w p n \<Longrightarrow> n \<in> set vis) \<Longrightarrow>
   set q \<union> set cs \<subseteq> set res \<and> (\<forall>p\<in>set res. \<forall>n. linked grid w p n \<longrightarrow> n \<in> set res)"
proof (induction grid w q vis cs rule: bfs.induct)
  case (1 grid w vis cs)
  then show ?case by auto
next
  case (2 grid w p queue vis cs)
  from "2.prems"(1) obtain tile where tile: "at2 grid p = Some tile"
    by (auto simp: bfs.simps(2) split: option.splits)
  from "2.prems"(1) tile obtain vis' q' where
    ex: "expand grid w p (tile_connections tile) DIRECTIONS (vis, queue) = Some (vis', q')"
    and rest: "bfs grid w q' vis' (cs @ [p]) = Some res"
    by (auto simp: bfs.simps(2) split: option.splits)
  from expand_append[OF ex] obtain new where new: "vis' = vis @ new" "q' = queue @ new" by blast
  have inv1: "set vis' = set q' \<union> set (cs @ [p])"
    using new "2.prems"(2) by auto
  have inv2: "n \<in> set vis'" if "p' \<in> set (cs @ [p])" "linked grid w p' n" for p' n
  proof (cases "p' = p")
    case True
    with that(2) tile obtain d where "d \<in> set DIRECTIONS"
      "n = neighbor (int (length grid)) w p d" "link_dir grid w p (tile_connections tile) d"
      by (auto simp: linked_def list_ex_iff)
    with expand_links[OF ex] show ?thesis by blast
  next
    case False
    with that have "n \<in> set vis" using "2.prems"(3) by auto
    then show ?thesis using new by simp
  qed
  from "2.IH"[OF tile ex refl rest inv1 inv2] new show ?case by auto
qed

lemma at2_mark_connected:
  "at2 (mark_connected grid cs) p = map_option (\<lambda>t. t\<lparr>connected := (p \<in> set cs)\<rparr>) (at2 grid p)"
proof -
  obtain r c where p: "p = (r, c)" by (cases p)
  show ?thesis
    by (auto simp: at2_def mark_connected_def p nth_enumerate_eq)
qed

lemma length_mark_connected [simp]: "length (mark_connected grid cs) = length grid"
  by (simp add: mark_connected_def)

definition tile_core :: "Tile \<Rightarrow> TileType \<times> nat \<times> bool" where
  "tile_core t = (type t, rotation t, isServer t)"

lemma mark_connected_core: "map (map tile_core) (mark_connected grid cs) = map (map tile_core) grid"
  by (auto simp: mark_connected_def list_eq_iff_nth_eq nth_enumerate_eq tile_core_def)


definition same_masks :: "Grid \<Rightarrow> Grid \<Rightarrow> bool" where
  "same_masks g1 g2 \<longleftrightarrow> length g1 = length g2 \<and>
     (\<forall>p. map_option tile_connections (at2 g1 p) = map_option tile_connections (at2 g2 p))"

lemma same_masks_at2:
  assumes "same_masks g1 g2"
  shows "(at2 g1 p = None \<longleftrightarrow> at2 g2 p = None)"
    and "at2 g1 p = Some t1 \<Longrightarrow> at2 g2 p = Some t2 \<Longrightarrow> tile_connections t1 = tile_connections t2"
proof -
  have e: "map_option tile_connections (at2 g1 p) = map_option tile_connections (at2 g2 p)"
    using assms unfolding same_masks_def by blast
  show "(at2 g1 p = None \<longleftrightarrow> at2 g2 p = None)"
    using e by (cases "at2 g1 p"; cases "at2 g2 p") auto
  show "at2 g1 p = Some t1 \<Longrightarrow> at2 g2 p = Some t2 \<Longrightarrow> tile_connections t1 = tile_connections t2"
    using e by simp
qed

lemma expand_cong:
  assumes "same_masks g1 g2"
  shows "expand g1 w p conn ds st = expand g2 w p conn ds st"
proof (induction ds arbitrary: st)
  case Nil
  then show ?case by (cases st) simp
next
  case (Cons d ds)
  obtain vis q where st: "st = (vis, q)" by (cases st)
  have len: "length g1 = length g2" using assms by (simp add: same_masks_def)
  let ?n = "neighbor (int (length g2)) w p d"
  show ?case
  proof (cases "conn AND dir_mask d \<noteq> 0 \<and> (w \<or> in_bounds (int (length g2)) ?n) \<and> ?n \<notin> set vis")
    case False
    then show ?thesis using Cons.IH[of "(vis, q)"] by (auto simp: st len Let_def)
  next
    case True
    show ?thesis
    proof (cases "at2 g1 ?n")
      case None
      then have "at2 g2 ?n = None" using same_masks_at2(1)[OF assms] by simp
      with None True show ?thesis by (simp add: st len Let_def)
    next
      case (Some t1)
      then obtain t2 where t2: "at2 g2 ?n = Some t2"
        using same_masks_at2(1)[OF assms, of ?n] by auto
      have "tile_connections t1 = tile_connections t2"
        using same_masks_at2(2)[OF assms Some t2] .
      with Some t2 True show ?thesis by (simp add: st len Cons.IH Let_def)
    qed
  qed
qed

lemma bfs_cong:
  "same_masks g1 g2 \<Longrightarrow> bfs g1 w q vis cs = bfs g2 w q vis cs"
proof (induction g1 w q vis cs rule: bfs.induct)
  case (1 grid w vis cs)
  then show ?case by simp
next
  case (2 grid w p queue vis cs)
  note sm = "2.prems"
  show ?case
  proof (cases "at2 grid p")
    case None
    then have "at2 g2 p = None" using same_masks_at2(1)[OF sm] by simp
    with None show ?thesis by (simp add: bfs.simps(2))
  next
    case (Some t1)
    then obtain t2 where t2: "at2 g2 p = Some t2"
      using same_masks_at2(1)[OF sm, of p] by auto
    have tc: "tile_connections t1 = tile_connections t2"
      using same_masks_at2(2)[OF sm Some t2] .
    show ?thesis
    proof (cases "expand grid w p (tile_connections t1) DIRECTIONS (vis, queue)")
      case None
      then show ?thesis using Some t2 tc expand_cong[OF sm] by (simp add: bfs.simps(2))
    next
      case (Some a)
      obtain vis' q' where a: "a = (vis', q')" by (cases a)
      have "bfs grid w q' vis' (cs @ [p]) = bfs g2 w q' vis' (cs @ [p])"
        using "2.IH"[OF \<open>at2 grid p = Some t1\<close> Some[unfolded a] refl sm] .
      then show ?thesis
        using Some \<open>at2 grid p = Some t1\<close> t2 tc expand_cong[OF sm, of w p] a
        by (simp add: bfs.simps(2))
    qed
  qed
qed

lemma same_masks_mark_connected: "same_masks (mark_connected grid cs) grid"
  by (auto simp: same_masks_def at2_mark_connected tile_connections_def option.map_comp comp_def
      intro!: option.map_cong)

lemma mark_connected_idem: "mark_connected (mark_connected grid cs) cs = mark_connected grid cs"
  by (auto simp: mark_connected_def list_eq_iff_nth_eq nth_enumerate_eq)

definition countConnected :: "Grid \<Rightarrow> nat" where
  "countConnected grid = length (filter connected (concat grid))"

lemma at2_in_concat: "at2 a p = Some x \<Longrightarrow> x \<in> set (concat a)"
  by (auto simp: at2_def split: if_splits) (metis nat_less_iff nth_mem)

lemma countConnected_pos:
  assumes "at2 grid p = Some t" "connected t"
  shows "1 \<le> countConnected grid"
proof -
  have "t \<in> set (concat grid)" using assms(1) by (rule at2_in_concat)
  then have "t \<in> set (filter connected (concat grid))" using assms(2) by simp
  then have "filter connected (concat grid) \<noteq> []" by (metis empty_iff empty_set)
  then show ?thesis unfolding countConnected_def by (simp add: Suc_leI)
qed

lemma checkConnectivity_total:
  assumes "square grid" "in_bounds (int (length grid)) srv"
  shows "checkConnectivity grid srv w \<noteq> None"
proof -
  have "srv \<in> dom (at2 grid)" using at2_square[OF assms(1), of srv] assms(2) by auto
  then have "bfs grid w [srv] [srv] [] \<noteq> None" using bfs_total[OF assms(1)] by simp
  then show ?thesis by (auto simp: checkConnectivity_def)
qed


definition demo_cross_grid :: Grid where
  "demo_cross_grid =
     replicate 5 (replicate 5 \<lparr>type = CROSS, rotation = 0, connected = False, isServer = False\<rparr>)"

lemma demo_cross_grid_wf: "square demo_cross_grid \<and> in_bounds (int (length demo_cross_grid)) (2, 2)"
  by (simp add: demo_cross_grid_def square_def in_bounds_def list_all_iff)

text \<open>C10. Frame property of the Evaluator: whenever \<^verbatim>\<open>checkConnectivity\<close> returns, the
  output grid has the shape of the input and every tile keeps its type, rotation and
  isServer value; only \<open>connected\<close> is rewritten. It returns on every square grid whose
  server coordinate lies on the grid.\<close>

theorem evaluator_frame:
  "(square grid \<and> in_bounds (int (length grid)) srv \<longrightarrow> checkConnectivity grid srv w \<noteq> None) \<and>
   (\<forall>g'. checkConnectivity grid srv w = Some g' \<longrightarrow>
      map (map tile_core) g' = map (map tile_core) grid)"
  using checkConnectivity_total[of grid srv w]
  by (auto simp: checkConnectivity_def mark_connected_core split: option.splits)

theorem evaluator_frame_witness:
  "\<exists>g'. checkConnectivity demo_cross_grid (2, 2) False = Some g' \<and>
        map (map tile_core) g' = map (map tile_core) demo_cross_grid"
  using evaluator_frame[of demo_cross_grid "(2, 2)" False] demo_cross_grid_wf by auto

end
